theory Spec2Isabelle
  imports Main
begin

section \<open>Python values, exceptions and strings\<close>

text \<open>
  The embedding follows \<^verbatim>\<open>lambda_function.py\<close> under Python 3. An exception is a value of
  \<open>py_error\<close>; \<open>ClientError\<close> stands for every failure of a provider call. A procedure
  takes the world and returns the exception it raised, if any, with the world it left;
  the calls to \<^verbatim>\<open>logger.info\<close> change nothing that the program reads and are left out.
\<close>

datatype py_error =
  IndexError | KeyError | ValueError | TypeError | UnboundLocalError | OverflowError | ClientError

text \<open>
  The values that the untyped variables of the source can hold: a \<^verbatim>\<open>str\<close>, a list of
  \<^verbatim>\<open>str\<close>, \<^verbatim>\<open>None\<close> and a \<^verbatim>\<open>bool\<close>.
\<close>

datatype pyval = PStr string | PList "string list" | PNone | PBool bool

text \<open>\<^verbatim>\<open>a <= b\<close> on two \<^verbatim>\<open>str\<close>: lexicographic, by code point.\<close>

fun str_le :: "string \<Rightarrow> string \<Rightarrow> bool" where
  "str_le [] b = True"
| "str_le (x # xs) [] = False"
| "str_le (x # xs) (y # ys) =
     ((of_char x :: nat) < of_char y \<or> (x = y \<and> str_le xs ys))"

text \<open>
  \<^verbatim>\<open>v <= s\<close> where \<^verbatim>\<open>s\<close> is a \<^verbatim>\<open>str\<close>: Python 3 orders a \<^verbatim>\<open>str\<close> only against a
  \<^verbatim>\<open>str\<close> and raises \<^verbatim>\<open>TypeError\<close> for \<^verbatim>\<open>None\<close>, a \<^verbatim>\<open>bool\<close> or a list on the left.
\<close>

fun py_le_str :: "pyval \<Rightarrow> string \<Rightarrow> py_error + bool" where
  "py_le_str (PStr a) s = Inr (str_le a s)"
| "py_le_str v s = Inl TypeError"

fun startswith :: "string \<Rightarrow> string \<Rightarrow> bool" where
  "startswith s [] = True"
| "startswith [] (p # ps) = False"
| "startswith (c # cs) (p # ps) = (c = p \<and> startswith cs ps)"

text \<open>\<^verbatim>\<open>s.find(sub)\<close> scanning from index \<open>i\<close>: the lowest index of an occurrence, or -1.\<close>

fun find_from :: "nat \<Rightarrow> string \<Rightarrow> string \<Rightarrow> int" where
  "find_from i [] sub = (if sub = [] then int i else - 1)"
| "find_from i (c # cs) sub =
     (if startswith (c # cs) sub then int i else find_from (Suc i) cs sub)"

text \<open>\<^verbatim>\<open>s.find(v)\<close>: a needle that is not a \<^verbatim>\<open>str\<close> raises \<^verbatim>\<open>TypeError\<close>.\<close>

fun py_find :: "string \<Rightarrow> pyval \<Rightarrow> py_error + int" where
  "py_find s (PStr sub) = Inr (find_from 0 s sub)"
| "py_find s v = Inl TypeError"

subsection \<open>\<^verbatim>\<open>int(s)\<close> on a \<^verbatim>\<open>str\<close>\<close>








subsection \<open>Dates: \<^verbatim>\<open>datetime.date\<close>, \<^verbatim>\<open>timedelta\<close> and \<^verbatim>\<open>strftime\<close>\<close>

text \<open>
  The calendar arithmetic of the \<^verbatim>\<open>datetime\<close> module: a date is the triple (year, month,
  day), its ordinal counts days from 0001-01-01 (ordinal 1), and 9999-12-31 is the last
  date (ordinal 3652059).
\<close>

type_synonym date = "int \<times> int \<times> int"

definition is_leap :: "int \<Rightarrow> bool" where
  "is_leap y = (y mod 4 = 0 \<and> (y mod 100 \<noteq> 0 \<or> y mod 400 = 0))"

definition days_before_year :: "int \<Rightarrow> int" where
  "days_before_year y = (y - 1) * 365 + (y - 1) div 4 - (y - 1) div 100 + (y - 1) div 400"

definition DAYS_IN_MONTH :: "int list" where
  "DAYS_IN_MONTH = [- 1, 31, 28, 31, 30, 31, 30, 31, 31, 30, 31, 30, 31]"

definition DAYS_BEFORE_MONTH :: "int list" where
  "DAYS_BEFORE_MONTH = [- 1, 0, 31, 59, 90, 120, 151, 181, 212, 243, 273, 304, 334]"

definition days_in_month :: "int \<Rightarrow> int \<Rightarrow> int" where
  "days_in_month y m = (if m = 2 \<and> is_leap y then 29 else DAYS_IN_MONTH ! nat m)"

definition days_before_month :: "int \<Rightarrow> int \<Rightarrow> int" where
  "days_before_month y m = DAYS_BEFORE_MONTH ! nat m + (if m > 2 \<and> is_leap y then 1 else 0)"

definition ymd2ord :: "date \<Rightarrow> int" where
  "ymd2ord dt = (case dt of (y, m, d) \<Rightarrow> days_before_year y + days_before_month y m + d)"

definition MAXORDINAL :: int where
  "MAXORDINAL = 3652059"

definition ord2ymd :: "int \<Rightarrow> date" where
  "ord2ymd n0 =
     (let n = n0 - 1;
          n400 = n div 146097; n = n mod 146097;
          n100 = n div 36524; n = n mod 36524;
          n4 = n div 1461; n = n mod 1461;
          n1 = n div 365; n = n mod 365;
          y = n400 * 400 + 1 + n100 * 100 + n4 * 4 + n1
      in if n1 = 4 \<or> n100 = 4 then (y - 1, 12, 31)
         else
           let leapyear = (n1 = 3 \<and> (n4 \<noteq> 24 \<or> n100 = 3));
               m = (n + 50) div 32;
               preceding = DAYS_BEFORE_MONTH ! nat m + (if m > 2 \<and> leapyear then 1 else 0)
           in if preceding > n then
                (y, m - 1,
                 n - (preceding - (DAYS_IN_MONTH ! nat (m - 1)
                                   + (if m - 1 = 2 \<and> leapyear then 1 else 0))) + 1)
              else (y, m, n - preceding + 1))"

text \<open>
  \<^verbatim>\<open>d + timedelta(days=n)\<close>: \<^verbatim>\<open>timedelta\<close> raises \<^verbatim>\<open>OverflowError\<close> beyond 999999999
  days, and the sum raises it when the result is no date.
\<close>

definition date_add_days :: "date \<Rightarrow> int \<Rightarrow> py_error + date" where
  "date_add_days dt n =
     (if abs n > 999999999 then Inl OverflowError
      else let ord = ymd2ord dt + n
           in if 0 < ord \<and> ord \<le> MAXORDINAL then Inr (ord2ymd ord) else Inl OverflowError)"

definition digit_char :: "int \<Rightarrow> char" where
  "digit_char d = char_of (48 + d)"

definition dec2 :: "int \<Rightarrow> string" where
  "dec2 n = [digit_char (n div 10 mod 10), digit_char (n mod 10)]"

text \<open>
  \<^verbatim>\<open>%Y\<close> for a year from 1 to 9999: four digits where the platform pads with zeros, and
  the plain decimal numeral where it does not (the C library decides; the two agree from
  the year 1000 on).
\<close>

definition year_str :: "bool \<Rightarrow> int \<Rightarrow> string" where
  "year_str pad y =
     (let ds = [digit_char (y div 1000 mod 10), digit_char (y div 100 mod 10),
                digit_char (y div 10 mod 10), digit_char (y mod 10)]
      in if pad \<or> y \<ge> 1000 then ds
         else if y \<ge> 100 then drop 1 ds
         else if y \<ge> 10 then drop 2 ds
         else drop 3 ds)"

text \<open>\<^verbatim>\<open>d.strftime('%Y%m%d%H%M%S')\<close> on a date: the time of day is midnight.\<close>

definition strftime_date :: "bool \<Rightarrow> date \<Rightarrow> string" where
  "strftime_date pad dt =
     (case dt of (y, m, d) \<Rightarrow> year_str pad y @ dec2 m @ dec2 d @ ''000000'')"

section \<open>Provider resources\<close>

text \<open>
  A tag is the dict \<^verbatim>\<open>{'Key': ..., 'Value': ...}\<close>; the source reads the value of an image's
  tag with \<^verbatim>\<open>t.get('Value')\<close>, so the value may be absent.
\<close>

record tag =
  Key :: string
  Value :: "string option"

record ec2_instance =
  InstanceId :: string
  Tags :: "tag list"

text \<open>An image resource: \<^verbatim>\<open>image.id\<close> and \<^verbatim>\<open>image.tags\<close>, which is \<^verbatim>\<open>None\<close> or a list.\<close>

record image =
  image_id :: string
  tags :: "tag list option"

record snapshot =
  SnapshotId :: string
  Description :: string
  OwnerId :: string

text \<open>What \<^verbatim>\<open>datetime.datetime.now()\<close> returns.\<close>

record datetime =
  year :: int
  month :: int
  day :: int
  hour :: int
  minute :: int
  second :: int

text \<open>\<^verbatim>\<open>t.strftime('%Y%m%d%H%M%S')\<close> on a \<^verbatim>\<open>datetime\<close>.\<close>

definition strftime_datetime :: "bool \<Rightarrow> datetime \<Rightarrow> string" where
  "strftime_datetime pad t =
     year_str pad (year t) @ dec2 (month t) @ dec2 (day t)
       @ dec2 (hour t) @ dec2 (minute t) @ dec2 (second t)"


datatype api_call =
  DescribeInstances
| CreateImage string string string
| CreateTags string "tag list"
| DescribeImages
| DeregisterImage string
| GetCallerIdentity
| DescribeSnapshots string
| DeleteSnapshot string

text \<open>
  The provider and the clock as the program sees them. \<open>fails\<close> says which calls raise;
  \<open>calls\<close> is the trace of the calls that succeeded, in order; the \<open>k\<close>-th reading of the
  clock returns \<open>clock k\<close> and \<open>reads\<close> counts the readings; \<open>new_image_id k\<close> is the id
  that the provider gives to the \<open>k\<close>-th image it creates and \<open>created\<close> counts the images
  created; \<open>pad_year\<close> says whether the platform's \<^verbatim>\<open>strftime\<close> pads \<^verbatim>\<open>%Y\<close> with zeros to
  four digits. \<open>Images\<close> are the images that the account owns.
\<close>

record world =
  Reservations :: "ec2_instance list list"
  Images :: "image list"
  Snapshots :: "snapshot list"
  Account :: string
  fails :: "api_call \<Rightarrow> bool"
  calls :: "api_call list"
  clock :: "nat \<Rightarrow> datetime"
  reads :: nat
  new_image_id :: "nat \<Rightarrow> string"
  created :: nat
  pad_year :: bool

subsection \<open>Provider calls\<close>

text \<open>
  Modelled from the spec: the provider (the \<^verbatim>\<open>boto3\<close> clients for EC2 and STS) is an external
  collaborator and no code of it is part of the repository. Each call below does what
  section 6 of the specification says of the operation, on the resources of \<open>world\<close>, with
  the arguments that the source passes; a call that \<open>fails\<close> raises \<^verbatim>\<open>ClientError\<close> and
  changes nothing.
\<close>

definition get_caller_identity :: "world \<Rightarrow> (py_error + string) \<times> world" where
  "get_caller_identity w =
     (if fails w GetCallerIdentity then (Inl ClientError, w)
      else (Inr (Account w), w\<lparr>calls := calls w @ [GetCallerIdentity]\<rparr>))"

text \<open>
  \<^verbatim>\<open>describe_snapshots(MaxResults=1000, OwnerIds=[owner])\<close>: one page of at most 1000 of the
  owner's snapshots; the source never asks for a further page.
\<close>

definition describe_snapshots :: "string \<Rightarrow> world \<Rightarrow> (py_error + snapshot list) \<times> world" where
  "describe_snapshots owner w =
     (if fails w (DescribeSnapshots owner) then (Inl ClientError, w)
      else (Inr (take 1000 (filter (\<lambda>s. OwnerId s = owner) (Snapshots w))),
            w\<lparr>calls := calls w @ [DescribeSnapshots owner]\<rparr>))"

definition delete_snapshot :: "string \<Rightarrow> world \<Rightarrow> py_error option \<times> world" where
  "delete_snapshot sid w =
     (if fails w (DeleteSnapshot sid) then (Some ClientError, w)
      else (None, w\<lparr>Snapshots := filter (\<lambda>s. SnapshotId s \<noteq> sid) (Snapshots w),
                     calls := calls w @ [DeleteSnapshot sid]\<rparr>))"

definition deregister_image :: "string \<Rightarrow> world \<Rightarrow> py_error option \<times> world" where
  "deregister_image iid w =
     (if fails w (DeregisterImage iid) then (Some ClientError, w)
      else (None, w\<lparr>Images := filter (\<lambda>i. image_id i \<noteq> iid) (Images w),
                     calls := calls w @ [DeregisterImage iid]\<rparr>))"








text \<open>\<^verbatim>\<open>datetime.datetime.now()\<close>, and \<^verbatim>\<open>datetime.date.today()\<close>, which is its date.\<close>

definition now :: "world \<Rightarrow> datetime \<times> world" where
  "now w = (clock w (reads w), w\<lparr>reads := Suc (reads w)\<rparr>)"


section \<open>The Backup Phase\<close>



text \<open>\<^verbatim>\<open>xs[0]\<close>.\<close>

definition first_item :: "'a list \<Rightarrow> py_error + 'a" where
  "first_item xs = (case xs of [] \<Rightarrow> Inl IndexError | x # _ \<Rightarrow> Inr x)"






text \<open>
  The value of \<^verbatim>\<open>deregister_on\<close> in \<^verbatim>\<open>create_ami_tags\<close>:
  \<^verbatim>\<open>(today + timedelta(days=retention_days)).strftime('%Y%m%d%H%M%S')\<close>.
\<close>

definition deregister_on :: "bool \<Rightarrow> date \<Rightarrow> int \<Rightarrow> py_error + string" where
  "deregister_on pad d retention_days =
     (case date_add_days d retention_days of
        Inl e \<Rightarrow> Inl e
      | Inr d' \<Rightarrow> Inr (strftime_date pad d'))"





section \<open>The Expiry Phase: selection\<close>


text \<open>\<^verbatim>\<open>t.get('Value')\<close>: the value, or \<^verbatim>\<open>None\<close>.\<close>

definition get_Value :: "tag \<Rightarrow> pyval" where
  "get_Value t = (case Value t of None \<Rightarrow> PNone | Some v \<Rightarrow> PStr v)"

text \<open>
  The \<^verbatim>\<open>try\<close> of the selection loop, as a function of the variable \<^verbatim>\<open>deletion_date\<close>
  (\<open>None\<close> while nothing was assigned to it): an image whose tags are \<^verbatim>\<open>None\<close> leaves the
  variable as it is, the first \<^verbatim>\<open>DeleteOn\<close> tag gives it its value, and the \<^verbatim>\<open>IndexError\<close>
  of a tag list without that key gives it \<^verbatim>\<open>False\<close>.
\<close>

definition assign_deletion_date :: "pyval option \<Rightarrow> image \<Rightarrow> pyval option" where
  "assign_deletion_date deletion_date i =
     (case tags i of
        None \<Rightarrow> deletion_date
      | Some ts \<Rightarrow>
          (case first_item (map get_Value (filter (\<lambda>t. Key t = ''DeleteOn'') ts)) of
             Inl e \<Rightarrow> Some (PBool False)
           | Inr v \<Rightarrow> Some v))"

text \<open>
  The loop of \<^verbatim>\<open>get_list_of_images_to_deregister\<close>. Reading a local variable that was never
  assigned raises \<^verbatim>\<open>UnboundLocalError\<close>.
\<close>

fun images_loop ::
  "pyval option \<Rightarrow> string list \<Rightarrow> image list \<Rightarrow> world \<Rightarrow> (py_error + string list) \<times> world" where
  "images_loop deletion_date amis_to_delete [] w = (Inr amis_to_delete, w)"
| "images_loop deletion_date amis_to_delete (i # is) w =
     (let deletion_date' = assign_deletion_date deletion_date i
      in case now w of
           (t, w1) \<Rightarrow>
             let todays_date = strftime_datetime (pad_year w1) t
             in (case deletion_date' of
                   None \<Rightarrow> (Inl UnboundLocalError, w1)
                 | Some v \<Rightarrow>
                     (case py_le_str v todays_date of
                        Inl e \<Rightarrow> (Inl e, w1)
                      | Inr b \<Rightarrow>
                          images_loop deletion_date'
                            (if b then amis_to_delete @ [image_id i] else amis_to_delete) is w1)))"

definition get_list_of_images_to_deregister ::
  "image list \<Rightarrow> world \<Rightarrow> (py_error + string list) \<times> world" where
  "get_list_of_images_to_deregister amis_with_deleteon_tag w =
     images_loop None [] amis_with_deleteon_tag w"

section \<open>The Expiry Phase: snapshots and deregistration\<close>

text \<open>The loop of \<^verbatim>\<open>delete_snapshots\<close> over the snapshots that were listed.\<close>

fun delete_snapshots_loop :: "pyval \<Rightarrow> snapshot list \<Rightarrow> world \<Rightarrow> py_error option \<times> world" where
  "delete_snapshots_loop amis_to_delete [] w = (None, w)"
| "delete_snapshots_loop amis_to_delete (s # ss) w =
     (case py_find (Description s) amis_to_delete of
        Inl e \<Rightarrow> (Some e, w)
      | Inr pos \<Rightarrow>
          if pos > 0 then
            (case delete_snapshot (SnapshotId s) w of
               (Some e, w') \<Rightarrow> (Some e, w')
             | (None, w') \<Rightarrow> delete_snapshots_loop amis_to_delete ss w')
          else delete_snapshots_loop amis_to_delete ss w)"

definition delete_snapshots :: "pyval \<Rightarrow> world \<Rightarrow> py_error option \<times> world" where
  "delete_snapshots amis_to_delete w =
     (case get_caller_identity w of
        (Inl e, w1) \<Rightarrow> (Some e, w1)
      | (Inr security_token, w1) \<Rightarrow>
          (case describe_snapshots security_token w1 of
             (Inl e, w2) \<Rightarrow> (Some e, w2)
           | (Inr snapshots, w2) \<Rightarrow> delete_snapshots_loop amis_to_delete snapshots w2))"

text \<open>
  \<^verbatim>\<open>deregister_amis\<close>: each image id of the list is deregistered and then handed, on its
  own, to \<^verbatim>\<open>delete_snapshots\<close>.
\<close>

fun deregister_amis :: "string list \<Rightarrow> world \<Rightarrow> py_error option \<times> world" where
  "deregister_amis [] w = (None, w)"
| "deregister_amis (ami # amis) w =
     (case deregister_image ami w of
        (Some e, w1) \<Rightarrow> (Some e, w1)
      | (None, w1) \<Rightarrow>
          (case delete_snapshots (PStr ami) w1 of
             (Some e, w2) \<Rightarrow> (Some e, w2)
           | (None, w2) \<Rightarrow> deregister_amis amis w2))"


section \<open>The entry point\<close>


section \<open>Predicates of the statements\<close>

text \<open>
  The test of \<^verbatim>\<open>delete_snapshots\<close> on one snapshot, for a needle that is a \<^verbatim>\<open>str\<close>:
  \<^verbatim>\<open>snapshot['Description'].find(ami) > 0\<close>.
\<close>

definition hit :: "string \<Rightarrow> snapshot \<Rightarrow> bool" where
  "hit ami s = (0 < find_from 0 (Description s) ami)"

text \<open>The snapshots of the world that the account owns.\<close>

definition owned :: "world \<Rightarrow> snapshot list" where
  "owned w = filter (\<lambda>s. OwnerId s = Account w) (Snapshots w)"

subsection \<open>A small account\<close>

text \<open>
  An account with one expired image and three snapshots of its own: the description of the
  first starts with the image's id, the second names the id further on, as the provider's
  own descriptions do, and the third does not name it.
\<close>

text \<open>Image ids that differ from one image to the next.\<close>

definition fresh_id :: "nat \<Rightarrow> string" where
  "fresh_id k = ''ami-f'' @ replicate k (CHR ''0'')"

definition noon :: datetime where
  "noon = \<lparr>year = 2024, month = 1, day = 2, hour = 12, minute = 0, second = 0\<rparr>"

definition small_account :: world where
  "small_account =
     \<lparr>Reservations = [],
      Images = [\<lparr>image_id = ''ami-1'', tags = Some [\<lparr>Key = ''DeleteOn'', Value = Some ''20240101000000''\<rparr>]\<rparr>],
      Snapshots =
        [\<lparr>SnapshotId = ''snap-0'', Description = ''ami-1 nightly'', OwnerId = ''42''\<rparr>,
         \<lparr>SnapshotId = ''snap-1'', Description = ''Created by CreateImage(i-7) for ami-1'', OwnerId = ''42''\<rparr>,
         \<lparr>SnapshotId = ''snap-2'', Description = ''scratch volume'', OwnerId = ''42''\<rparr>],
      Account = ''42'',
      fails = (\<lambda>c. False),
      calls = [],
      clock = (\<lambda>k. noon),
      reads = 0,
      new_image_id = fresh_id,
      created = 0,
      pad_year = False\<rparr>"

text \<open>
  The dates of the \<^verbatim>\<open>datetime\<close> module (what its constructor accepts), their order, and
  the day after a date in the Gregorian calendar.
\<close>

definition valid_date :: "date \<Rightarrow> bool" where
  "valid_date dt =
     (case dt of (y, m, d) \<Rightarrow>
        1 \<le> y \<and> y \<le> 9999 \<and> 1 \<le> m \<and> m \<le> 12 \<and> 1 \<le> d \<and> d \<le> days_in_month y m)"

definition date_le :: "date \<Rightarrow> date \<Rightarrow> bool" where
  "date_le a b =
     (case a of (y, m, d) \<Rightarrow> case b of (y', m', d') \<Rightarrow>
        y < y' \<or> (y = y' \<and> (m < m' \<or> (m = m' \<and> d \<le> d'))))"

definition next_day :: "date \<Rightarrow> date" where
  "next_day dt =
     (case dt of (y, m, d) \<Rightarrow>
        if d < days_in_month y m then (y, m, d + 1)
        else if m < 12 then (y, m + 1, 1)
        else (y + 1, 1, 1))"



text \<open>
  The value of the first \<^verbatim>\<open>DeleteOn\<close> tag of an image, where the image has a tag list, the
  list has that key and the tag has a value.
\<close>

definition delete_on :: "image \<Rightarrow> string option" where
  "delete_on i =
     (case tags i of
        None \<Rightarrow> None
      | Some ts \<Rightarrow>
          (case filter (\<lambda>t. Key t = ''DeleteOn'') ts of [] \<Rightarrow> None | t # _ \<Rightarrow> Value t))"


text \<open>The timestamp that the \<open>k\<close>-th reading of the clock of a world gives.\<close>

definition stamp_of :: "world \<Rightarrow> nat \<Rightarrow> string" where
  "stamp_of w k = strftime_datetime (pad_year w) (clock w k)"

text \<open>An account whose clock shows midnight, 2 January 2024.\<close>

definition midnight_account :: world where
  "midnight_account =
     small_account
       \<lparr>clock := (\<lambda>k. \<lparr>year = 2024, month = 1, day = 2, hour = 0, minute = 0, second = 0\<rparr>)\<rparr>"

subsection \<open>Accounts with instances to back up\<close>








section \<open>Properties of the embedding\<close>

subsection \<open>Substrings\<close>

lemma startswith_iff: "startswith s p \<longleftrightarrow> (\<exists>r. s = p @ r)"
  by (induction s p rule: startswith.induct) auto

lemma find_from_range: "find_from i s sub = - 1 \<or> int i \<le> find_from i s sub"
  by (induction i s sub rule: find_from.induct) auto

lemma find_from_start: "find_from i s sub = int i \<longleftrightarrow> startswith s sub"
proof (cases s)
  case Nil
  then show ?thesis by (cases sub) auto
next
  case (Cons c cs)
  show ?thesis
  proof (cases "startswith (c # cs) sub")
    case True
    then show ?thesis using Cons by simp
  next
    case False
    have "find_from (Suc i) cs sub = - 1 \<or> int (Suc i) \<le> find_from (Suc i) cs sub"
      by (rule find_from_range)
    then show ?thesis using False Cons by auto
  qed
qed

lemma find_from_found: "find_from i s sub \<noteq> - 1 \<longleftrightarrow> (\<exists>pre post. s = pre @ sub @ post)"
proof (induction i s sub rule: find_from.induct)
  case (1 i sub)
  then show ?case by auto
next
  case (2 i c cs sub)
  show ?case
  proof (cases "startswith (c # cs) sub")
    case True
    then obtain r where "c # cs = sub @ r" by (auto simp: startswith_iff)
    then have "c # cs = [] @ sub @ r" by simp
    then have "\<exists>pre post. c # cs = pre @ sub @ post" by blast
    then show ?thesis using True by simp
  next
    case False
    have "(\<exists>pre post. c # cs = pre @ sub @ post) \<longleftrightarrow> (\<exists>pre post. cs = pre @ sub @ post)"
    proof
      assume "\<exists>pre post. c # cs = pre @ sub @ post"
      then obtain pre post where eq: "c # cs = pre @ sub @ post" by blast
      show "\<exists>pre post. cs = pre @ sub @ post"
      proof (cases pre)
        case Nil
        then have "startswith (c # cs) sub" using eq by (auto simp: startswith_iff)
        then show ?thesis using False by simp
      next
        case (Cons p ps)
        then have "cs = ps @ sub @ post" using eq by simp
        then show ?thesis by blast
      qed
    next
      assume "\<exists>pre post. cs = pre @ sub @ post"
      then obtain pre post where "cs = pre @ sub @ post" by blast
      then have "c # cs = (c # pre) @ sub @ post" by simp
      then show "\<exists>pre post. c # cs = pre @ sub @ post" by blast
    qed
    then show ?thesis using False 2 by simp
  qed
qed

lemma find_from_pos:
  "0 < find_from 0 s sub \<longleftrightarrow> (\<exists>pre post. s = pre @ sub @ post) \<and> \<not> startswith s sub"
  using find_from_range [of 0 s sub] find_from_start [of 0 s sub] find_from_found [of 0 s sub]
  by auto

subsection \<open>Snapshots and deregistration\<close>

lemma delete_snapshots_loop_ok:
  "\<forall>c. \<not> fails w c \<Longrightarrow>
   delete_snapshots_loop (PStr ami) ss w =
     (None, w\<lparr>Snapshots :=
                 filter (\<lambda>s. SnapshotId s \<notin> set (map SnapshotId (filter (hit ami) ss))) (Snapshots w),
               calls := calls w @ map (\<lambda>s. DeleteSnapshot (SnapshotId s)) (filter (hit ami) ss)\<rparr>)"
proof (induction ss arbitrary: w)
  case Nil
  then show ?case by simp
next
  case (Cons s ss)
  show ?case
  proof (cases "hit ami s")
    case True
    let ?w' = "w\<lparr>Snapshots := filter (\<lambda>t. SnapshotId t \<noteq> SnapshotId s) (Snapshots w),
                   calls := calls w @ [DeleteSnapshot (SnapshotId s)]\<rparr>"
    have d: "delete_snapshot (SnapshotId s) w = (None, ?w')"
      using Cons.prems by (simp add: delete_snapshot_def)
    have f: "\<forall>c. \<not> fails ?w' c" using Cons.prems by simp
    show ?thesis
      using True d Cons.IH [OF f] by (simp add: hit_def conj_commute)
  next
    case False
    then show ?thesis using Cons.IH [OF Cons.prems] by (simp add: hit_def)
  qed
qed


lemma delete_snapshots_ok:
  assumes nf: "\<forall>c. \<not> fails w c" and page: "length (owned w) \<le> 1000"
    and dist: "distinct (map SnapshotId (Snapshots w))"
  shows "delete_snapshots (PStr ami) w =
     (None, w\<lparr>Snapshots := filter (\<lambda>s. \<not> (OwnerId s = Account w \<and> hit ami s)) (Snapshots w),
               calls := calls w @ [GetCallerIdentity, DescribeSnapshots (Account w)]
                        @ map (\<lambda>s. DeleteSnapshot (SnapshotId s)) (filter (hit ami) (owned w))\<rparr>)"
proof -
  let ?w2 = "w\<lparr>calls := calls w @ [GetCallerIdentity, DescribeSnapshots (Account w)]\<rparr>"
  have f2: "\<forall>c. \<not> fails ?w2 c" using nf by simp
  have tk: "take 1000 (owned w) = owned w" using page by simp
  have mem: "\<And>s. s \<in> set (Snapshots w) \<Longrightarrow>
      (SnapshotId s \<in> set (map SnapshotId (filter (hit ami) (owned w)))) = (OwnerId s = Account w \<and> hit ami s)"
  proof -
    fix s assume s: "s \<in> set (Snapshots w)"
    have inj: "inj_on SnapshotId (set (Snapshots w))" using dist by (simp add: distinct_map)
    show "(SnapshotId s \<in> set (map SnapshotId (filter (hit ami) (owned w)))) = (OwnerId s = Account w \<and> hit ami s)"
    proof
      assume "SnapshotId s \<in> set (map SnapshotId (filter (hit ami) (owned w)))"
      then obtain t where t: "t \<in> set (Snapshots w)" "OwnerId t = Account w" "hit ami t"
          "SnapshotId t = SnapshotId s" by (auto simp: owned_def)
      then have "t = s" using inj s by (auto dest: inj_onD)
      then show "OwnerId s = Account w \<and> hit ami s" using t by simp
    next
      assume "OwnerId s = Account w \<and> hit ami s"
      then show "SnapshotId s \<in> set (map SnapshotId (filter (hit ami) (owned w)))"
        using s by (auto simp: owned_def)
    qed
  qed
  have flt: "filter (\<lambda>s. SnapshotId s \<notin> set (map SnapshotId (filter (hit ami) (owned w)))) (Snapshots w)
      = filter (\<lambda>s. \<not> (OwnerId s = Account w \<and> hit ami s)) (Snapshots w)"
    by (rule filter_cong [OF refl]) (simp only: mem)
  have "delete_snapshots (PStr ami) w = delete_snapshots_loop (PStr ami) (owned w) ?w2"
    using nf tk by (simp add: delete_snapshots_def get_caller_identity_def describe_snapshots_def owned_def)
  also have "\<dots> = (None, ?w2\<lparr>Snapshots :=
                 filter (\<lambda>s. SnapshotId s \<notin> set (map SnapshotId (filter (hit ami) (owned w)))) (Snapshots ?w2),
               calls := calls ?w2 @ map (\<lambda>s. DeleteSnapshot (SnapshotId s)) (filter (hit ami) (owned w))\<rparr>)"
    by (rule delete_snapshots_loop_ok [OF f2])
  finally show ?thesis using flt by simp
qed


lemma deregister_amis_ok:
  assumes "\<forall>c. \<not> fails w c" and "length (owned w) \<le> 1000"
    and "distinct (map SnapshotId (Snapshots w))"
  shows "fst (deregister_amis amis w) = None \<and>
     Images (snd (deregister_amis amis w)) = filter (\<lambda>i. image_id i \<notin> set amis) (Images w) \<and>
     Snapshots (snd (deregister_amis amis w)) =
       filter (\<lambda>s. \<not> (OwnerId s = Account w \<and> (\<exists>a \<in> set amis. hit a s))) (Snapshots w)"
  using assms
proof (induction amis arbitrary: w)
  case Nil
  then show ?case by simp
next
  case (Cons ami amis)
  define w1 where "w1 = w\<lparr>Images := filter (\<lambda>i. image_id i \<noteq> ami) (Images w),
                 calls := calls w @ [DeregisterImage ami]\<rparr>"
  define w2 where "w2 = w1\<lparr>Snapshots := filter (\<lambda>s. \<not> (OwnerId s = Account w1 \<and> hit ami s)) (Snapshots w1),
               calls := calls w1 @ [GetCallerIdentity, DescribeSnapshots (Account w1)]
                        @ map (\<lambda>s. DeleteSnapshot (SnapshotId s)) (filter (hit ami) (owned w1))\<rparr>"
  have d1: "deregister_image ami w = (None, w1)"
    using Cons.prems(1) by (simp add: deregister_image_def w1_def)
  have nf1: "\<forall>c. \<not> fails w1 c" using Cons.prems(1) by (simp add: w1_def)
  have pg1: "length (owned w1) \<le> 1000" using Cons.prems(2) by (simp add: owned_def w1_def)
  have ds1: "distinct (map SnapshotId (Snapshots w1))" using Cons.prems(3) by (simp add: w1_def)
  have d2: "delete_snapshots (PStr ami) w1 = (None, w2)"
    unfolding w2_def by (rule delete_snapshots_ok [OF nf1 pg1 ds1])
  have acc: "Account w2 = Account w" by (simp add: w2_def w1_def)
  have img: "Images w2 = filter (\<lambda>i. image_id i \<noteq> ami) (Images w)" by (simp add: w2_def w1_def)
  have snp: "Snapshots w2 = filter (\<lambda>s. \<not> (OwnerId s = Account w \<and> hit ami s)) (Snapshots w)"
    by (simp add: w2_def w1_def)
  have nf2: "\<forall>c. \<not> fails w2 c" using Cons.prems(1) by (simp add: w2_def w1_def)
  have "owned w2 = filter (\<lambda>s. \<not> hit ami s) (owned w)"
    unfolding owned_def acc snp filter_filter by (rule filter_cong) auto
  then have pg2: "length (owned w2) \<le> 1000"
    using Cons.prems(2) le_trans [OF length_filter_le] by simp
  have ds2: "distinct (map SnapshotId (Snapshots w2))"
    unfolding snp using Cons.prems(3) by (rule distinct_map_filter)
  have step: "deregister_amis (ami # amis) w = deregister_amis amis w2"
    using d1 d2 by simp
  have i2: "filter (\<lambda>i. image_id i \<notin> set amis) (Images w2)
      = filter (\<lambda>i. image_id i \<notin> set (ami # amis)) (Images w)"
    unfolding img filter_filter by (rule filter_cong) auto
  have s2: "filter (\<lambda>s. \<not> (OwnerId s = Account w2 \<and> (\<exists>a \<in> set amis. hit a s))) (Snapshots w2)
      = filter (\<lambda>s. \<not> (OwnerId s = Account w \<and> (\<exists>a \<in> set (ami # amis). hit a s))) (Snapshots w)"
    unfolding snp acc filter_filter by (rule filter_cong) auto
  show ?case
    unfolding step using Cons.IH [OF nf2 pg2 ds2] i2 s2 by simp
qed


lemmas expiry_defs = delete_snapshots_def get_caller_identity_def describe_snapshots_def
  delete_snapshot_def deregister_image_def

subsection \<open>Retention and the loops\<close>











subsection \<open>Selection\<close>

lemma digit_chars:
  "digit_char 0 = CHR ''0''" "digit_char 1 = CHR ''1''" "digit_char 2 = CHR ''2''"
  "digit_char 3 = CHR ''3''" "digit_char 4 = CHR ''4''" "digit_char 5 = CHR ''5''"
  "digit_char 6 = CHR ''6''" "digit_char 7 = CHR ''7''" "digit_char 8 = CHR ''8''"
  "digit_char 9 = CHR ''9''"
  by code_simp+

lemmas strftime_defs = strftime_datetime_def strftime_date_def year_str_def dec2_def digit_chars

lemma assign_deletion_date_str:
  "delete_on i = Some s \<Longrightarrow> assign_deletion_date dd i = Some (PStr s)"
  by (auto simp: delete_on_def assign_deletion_date_def first_item_def get_Value_def
      split: option.splits list.splits)

lemma stamp_of_reads [simp]: "stamp_of (w\<lparr>reads := r\<rparr>) = stamp_of w"
  by (rule ext) (simp add: stamp_of_def)

lemma images_loop_step:
  assumes "delete_on i = Some s"
  shows "images_loop dd acc (i # is) w =
     images_loop (Some (PStr s)) (if str_le s (stamp_of w (reads w)) then acc @ [image_id i] else acc)
       is (w\<lparr>reads := Suc (reads w)\<rparr>)"
  using assign_deletion_date_str [OF assms, of dd]
  by (simp add: now_def stamp_of_def)


lemmas selection_defs = get_list_of_images_to_deregister_def assign_deletion_date_def
  first_item_def get_Value_def now_def

subsection \<open>The calendar\<close>

lemma div_pred:
  fixes y :: int
  assumes "0 < k"
  shows "y div k = (y - 1) div k + (if y mod k = 0 then 1 else 0)"
proof (cases "y mod k = 0")
  case True
  have e: "y - 1 = k * (y div k - 1) + (k - 1)"
    using True mult_div_mod_eq [of k y] by (simp add: algebra_simps)
  have "0 \<le> k - 1" "k - 1 < k" using assms by simp_all
  then have "(y - 1) div k = y div k - 1"
    using e by (rule_tac int_div_pos_eq)
  then show ?thesis using True by simp
next
  case False
  have r: "0 < y mod k" using False assms pos_mod_sign [of k y] by linarith
  have e: "y - 1 = k * (y div k) + (y mod k - 1)"
    using mult_div_mod_eq [of k y] by (simp add: algebra_simps)
  have "0 \<le> y mod k - 1" "y mod k - 1 < k" using r pos_mod_bound [OF assms, of y] by linarith+
  then have "(y - 1) div k = y div k"
    using e by (rule_tac int_div_pos_eq)
  then show ?thesis using False by simp
qed

lemma leap_sum:
  fixes p4 p100 p400 r4 r100 r400 :: int
  assumes "r4 = p4 + a" "r100 = p100 + b" "r400 = p400 + c"
  shows "y * 365 + r4 - r100 + r400 = (y - 1) * 365 + p4 - p100 + p400 + (365 + a - b + c)"
  using assms by (simp add: algebra_simps)

lemma days_before_year_Suc:
  "days_before_year (y + 1) = days_before_year y + (if is_leap y then 366 else 365)"
proof -
  define a :: int where "a = (if y mod 4 = 0 then 1 else 0)"
  define b :: int where "b = (if y mod 100 = 0 then 1 else 0)"
  define c :: int where "c = (if y mod 400 = 0 then 1 else 0)"
  have a: "y div 4 = (y - 1) div 4 + a" unfolding a_def by (rule div_pred) simp
  have b: "y div 100 = (y - 1) div 100 + b" unfolding b_def by (rule div_pred) simp
  have c: "y div 400 = (y - 1) div 400 + c" unfolding c_def by (rule div_pred) simp
  have e: "days_before_year (y + 1) = days_before_year y + (365 + a - b + c)"
    unfolding days_before_year_def add_diff_cancel_right' by (rule leap_sum [OF a b c])
  have d1: "y mod 100 = 0 \<Longrightarrow> y mod 4 = 0"
    using mod_mod_cancel [of 4 100 y] by simp
  have d2: "y mod 400 = 0 \<Longrightarrow> y mod 100 = 0"
    using mod_mod_cancel [of 100 400 y] by simp
  have "365 + a - b + c = (if is_leap y then 366 else 365)"
  proof (cases "y mod 4 = 0")
    case False
    then have "y mod 100 \<noteq> 0" using d1 by (rule contrapos_nn)
    moreover from this have "y mod 400 \<noteq> 0" using d2 by (rule contrapos_nn)
    ultimately show ?thesis using False by (simp add: a_def b_def c_def is_leap_def)
  next
    case m4: True
    show ?thesis
    proof (cases "y mod 100 = 0")
      case False
      then have "y mod 400 \<noteq> 0" using d2 by (rule contrapos_nn)
      then show ?thesis using False m4 by (simp add: a_def b_def c_def is_leap_def)
    next
      case True
      then show ?thesis using m4 by (simp add: a_def b_def c_def is_leap_def)
    qed
  qed
  then show ?thesis using e by simp
qed


lemma days_before_year_mono: "y \<le> y' \<Longrightarrow> days_before_year y \<le> days_before_year y'"
proof (induction y' rule: int_ge_induct)
  case base
  then show ?case by simp
next
  case (step i)
  have "days_before_year i \<le> days_before_year (i + 1)"
    unfolding days_before_year_Suc by simp
  then show ?case using step.IH by linarith
qed

lemma decomp_sum:
  fixes a b c e :: int
  shows "(400 * a + 100 * b + 4 * c + e) * 365 + (100 * a + 25 * b + c) - (4 * a + b) + a
         = 146097 * a + 36524 * b + 1461 * c + 365 * e"
  by (simp add: algebra_simps)

lemma days_before_year_decomp:
  assumes "0 \<le> b" "b \<le> 3" "0 \<le> c" "c \<le> 24" "0 \<le> e" "e \<le> 3"
  shows "days_before_year (400 * a + 100 * b + 4 * c + e + 1)
         = 146097 * a + 36524 * b + 1461 * c + 365 * e"
proof -
  let ?y = "400 * a + 100 * b + 4 * c + e"
  have q4: "?y div 4 = 100 * a + 25 * b + c"
  proof (rule int_div_pos_eq [where r = e])
    show "?y = 4 * (100 * a + 25 * b + c) + e" by simp
  qed (use assms in simp_all)
  have q100: "?y div 100 = 4 * a + b"
  proof (rule int_div_pos_eq [where r = "4 * c + e"])
    show "?y = 100 * (4 * a + b) + (4 * c + e)" by simp
    show "0 \<le> 4 * c + e" using assms by linarith
    show "4 * c + e < 100" using assms by linarith
  qed
  have q400: "?y div 400 = a"
  proof (rule int_div_pos_eq [where r = "100 * b + 4 * c + e"])
    show "?y = 400 * a + (100 * b + 4 * c + e)" by simp
    show "0 \<le> 100 * b + 4 * c + e" using assms by linarith
    show "100 * b + 4 * c + e < 400" using assms by linarith
  qed
  show ?thesis
    unfolding days_before_year_def add_diff_cancel_right' q4 q100 q400 by (rule decomp_sum)
qed


lemma month_cases:
  fixes m :: int
  assumes "1 \<le> m" "m \<le> 12"
  obtains "m = 1" | "m = 2" | "m = 3" | "m = 4" | "m = 5" | "m = 6"
    | "m = 7" | "m = 8" | "m = 9" | "m = 10" | "m = 11" | "m = 12"
proof -
  have "m = 1 \<or> m = 2 \<or> m = 3 \<or> m = 4 \<or> m = 5 \<or> m = 6 \<or> m = 7 \<or> m = 8 \<or> m = 9
      \<or> m = 10 \<or> m = 11 \<or> m = 12"
    using assms by arith
  then show thesis
    by (elim disjE) (erule that)+
qed

lemma div32_bounds:
  fixes x :: int
  shows "32 * (x div 32) \<le> x \<and> x < 32 * (x div 32) + 32"
  using mult_div_mod_eq [of 32 x] pos_mod_sign [of 32 x] pos_mod_bound [of 32 x] by linarith

text \<open>The month and day that \<open>ord2ymd\<close> computes from the day of the year.\<close>

lemma month_day:
  fixes k :: int
  assumes k: "0 \<le> k" "k < 365"
    and m: "m = (k + 50) div 32"
    and p: "p = DAYS_BEFORE_MONTH ! nat m + (if m > 2 \<and> leap then 1 else 0)"
    and r: "(m', d') = (if p > k
              then (m - 1, k - (p - (DAYS_IN_MONTH ! nat (m - 1)
                                      + (if m - 1 = 2 \<and> leap then 1 else 0))) + 1)
              else (m, k - p + 1))"
  shows "1 \<le> m' \<and> m' \<le> 12 \<and> 1 \<le> d' \<and>
         d' \<le> DAYS_IN_MONTH ! nat m' + (if m' = 2 \<and> leap then 1 else 0) \<and>
         DAYS_BEFORE_MONTH ! nat m' + (if m' > 2 \<and> leap then 1 else 0) + d' = k + 1"
proof -
  have b: "32 * m \<le> k + 50 \<and> k + 50 < 32 * m + 32"
    unfolding m by (rule div32_bounds)
  then have "1 \<le> m" "m \<le> 12" using k by linarith+
  then show ?thesis
  proof (cases rule: month_cases)
    case 1
    then show ?thesis using b k p r
      by (simp add: DAYS_BEFORE_MONTH_def DAYS_IN_MONTH_def split: if_splits)
  next
    case 2
    then show ?thesis using b k p r
      by (simp add: DAYS_BEFORE_MONTH_def DAYS_IN_MONTH_def split: if_splits)
  next
    case 3
    then show ?thesis using b k p r
      by (simp add: DAYS_BEFORE_MONTH_def DAYS_IN_MONTH_def split: if_splits)
  next
    case 4
    then show ?thesis using b k p r
      by (simp add: DAYS_BEFORE_MONTH_def DAYS_IN_MONTH_def split: if_splits)
  next
    case 5
    then show ?thesis using b k p r
      by (simp add: DAYS_BEFORE_MONTH_def DAYS_IN_MONTH_def split: if_splits)
  next
    case 6
    then show ?thesis using b k p r
      by (simp add: DAYS_BEFORE_MONTH_def DAYS_IN_MONTH_def split: if_splits)
  next
    case 7
    then show ?thesis using b k p r
      by (simp add: DAYS_BEFORE_MONTH_def DAYS_IN_MONTH_def split: if_splits)
  next
    case 8
    then show ?thesis using b k p r
      by (simp add: DAYS_BEFORE_MONTH_def DAYS_IN_MONTH_def split: if_splits)
  next
    case 9
    then show ?thesis using b k p r
      by (simp add: DAYS_BEFORE_MONTH_def DAYS_IN_MONTH_def split: if_splits)
  next
    case 10
    then show ?thesis using b k p r
      by (simp add: DAYS_BEFORE_MONTH_def DAYS_IN_MONTH_def split: if_splits)
  next
    case 11
    then show ?thesis using b k p r
      by (simp add: DAYS_BEFORE_MONTH_def DAYS_IN_MONTH_def split: if_splits)
  next
    case 12
    then show ?thesis using b k p r
      by (simp add: DAYS_BEFORE_MONTH_def DAYS_IN_MONTH_def split: if_splits)
  qed
qed


lemma mod_eq_0_range:
  fixes x :: int
  assumes "1 \<le> x" "x \<le> k"
  shows "x mod k = 0 \<longleftrightarrow> x = k"
proof (cases "x = k")
  case True
  then show ?thesis by simp
next
  case False
  then have "x mod k = x" using assms by (simp add: mod_pos_pos_trivial)
  then show ?thesis using False assms by simp
qed

lemma is_leap_decomp:
  assumes "0 \<le> b" "b \<le> 3" "0 \<le> c" "c \<le> 24" "0 \<le> e" "e \<le> 3"
  shows "is_leap (400 * a + 100 * b + 4 * c + e + 1) \<longleftrightarrow> (e = 3 \<and> (c \<noteq> 24 \<or> b = 3))"
proof -
  let ?y = "400 * a + 100 * b + 4 * c + e + 1"
  have "?y = 4 * (100 * a + 25 * b + c) + (e + 1)" by simp
  then have "?y mod 4 = (e + 1) mod 4" by (simp only: mod_mult_self4)
  moreover have "(e + 1) mod 4 = 0 \<longleftrightarrow> e + 1 = 4"
    by (rule mod_eq_0_range) (use assms in simp_all)
  ultimately have m4: "?y mod 4 = 0 \<longleftrightarrow> e = 3" by simp
  have "?y = 100 * (4 * a + b) + (4 * c + e + 1)" by simp
  then have "?y mod 100 = (4 * c + e + 1) mod 100" by (simp only: mod_mult_self4)
  moreover have "(4 * c + e + 1) mod 100 = 0 \<longleftrightarrow> 4 * c + e + 1 = 100"
    by (rule mod_eq_0_range) (use assms in linarith)+
  ultimately have m100: "?y mod 100 = 0 \<longleftrightarrow> 4 * c + e = 99" by simp
  have "?y = 400 * a + (100 * b + 4 * c + e + 1)" by simp
  then have "?y mod 400 = (100 * b + 4 * c + e + 1) mod 400" by (simp only: mod_mult_self4)
  moreover have "(100 * b + 4 * c + e + 1) mod 400 = 0 \<longleftrightarrow> 100 * b + 4 * c + e + 1 = 400"
    by (rule mod_eq_0_range) (use assms in linarith)+
  ultimately have m400: "?y mod 400 = 0 \<longleftrightarrow> 100 * b + 4 * c + e = 399"
    by (simp add: add.assoc)
  have c24: "4 * c + e = 99 \<longleftrightarrow> c = 24 \<and> e = 3" using assms by linarith
  have b3: "100 * b + 4 * c + e = 399 \<longleftrightarrow> b = 3 \<and> c = 24 \<and> e = 3" using assms by linarith
  show ?thesis
    unfolding is_leap_def m4 m100 m400 c24 b3 by blast
qed


lemma divmod_facts:
  fixes x k :: int
  assumes "0 < k"
  shows "x = k * (x div k) + x mod k \<and> 0 \<le> x mod k \<and> x mod k < k"
  using assms mult_div_mod_eq [of k x] pos_mod_sign [of k x] pos_mod_bound [of k x] by simp

lemma ord2ymd_unfold:
  fixes n :: int
  defines "a \<equiv> (n - 1) div 146097" and "r1 \<equiv> (n - 1) mod 146097"
  defines "b \<equiv> r1 div 36524" and "r2 \<equiv> r1 mod 36524"
  defines "c \<equiv> r2 div 1461" and "r3 \<equiv> r2 mod 1461"
  defines "e \<equiv> r3 div 365" and "r4 \<equiv> r3 mod 365"
  defines "yy \<equiv> a * 400 + 1 + b * 100 + c * 4 + e"
  defines "leap \<equiv> (e = 3 \<and> (c \<noteq> 24 \<or> b = 3))"
  defines "mm \<equiv> (r4 + 50) div 32"
  defines "p \<equiv> DAYS_BEFORE_MONTH ! nat mm + (if mm > 2 \<and> leap then 1 else 0)"
  shows "ord2ymd n =
     (if e = 4 \<or> b = 4 then (yy - 1, 12, 31)
      else if p > r4
        then (yy, mm - 1, r4 - (p - (DAYS_IN_MONTH ! nat (mm - 1)
                                  + (if mm - 1 = 2 \<and> leap then 1 else 0))) + 1)
        else (yy, mm, r4 - p + 1))"
  unfolding ord2ymd_def Let_def p_def mm_def leap_def yy_def r4_def e_def r3_def c_def r2_def
    b_def r1_def a_def
  by (rule refl)


lemma ord2ymd_correct:
  assumes n: "1 \<le> n" and res: "ord2ymd n = (y, m, d)"
  shows "1 \<le> y \<and> 1 \<le> m \<and> m \<le> 12 \<and> 1 \<le> d \<and> d \<le> days_in_month y m \<and>
         ymd2ord (y, m, d) = n"
proof -
  define a where "a = (n - 1) div 146097"
  define r1 where "r1 = (n - 1) mod 146097"
  define b where "b = r1 div 36524"
  define r2 where "r2 = r1 mod 36524"
  define c where "c = r2 div 1461"
  define r3 where "r3 = r2 mod 1461"
  define e where "e = r3 div 365"
  define r4 where "r4 = r3 mod 365"
  define yy where "yy = a * 400 + 1 + b * 100 + c * 4 + e"
  define leap where "leap = (e = 3 \<and> (c \<noteq> 24 \<or> b = 3))"
  define mm where "mm = (r4 + 50) div 32"
  define p where "p = DAYS_BEFORE_MONTH ! nat mm + (if mm > 2 \<and> leap then 1 else 0)"
  have o: "ord2ymd n =
     (if e = 4 \<or> b = 4 then (yy - 1, 12, 31)
      else if p > r4
        then (yy, mm - 1, r4 - (p - (DAYS_IN_MONTH ! nat (mm - 1)
                                  + (if mm - 1 = 2 \<and> leap then 1 else 0))) + 1)
        else (yy, mm, r4 - p + 1))"
    unfolding p_def mm_def leap_def yy_def r4_def e_def r3_def c_def r2_def b_def r1_def a_def
    by (rule ord2ymd_unfold)
  have f1: "n - 1 = 146097 * a + r1 \<and> 0 \<le> r1 \<and> r1 < 146097"
    unfolding a_def r1_def by (rule divmod_facts) simp
  have f2: "r1 = 36524 * b + r2 \<and> 0 \<le> r2 \<and> r2 < 36524"
    unfolding b_def r2_def by (rule divmod_facts) simp
  have f3: "r2 = 1461 * c + r3 \<and> 0 \<le> r3 \<and> r3 < 1461"
    unfolding c_def r3_def by (rule divmod_facts) simp
  have f4: "r3 = 365 * e + r4 \<and> 0 \<le> r4 \<and> r4 < 365"
    unfolding e_def r4_def by (rule divmod_facts) simp
  have a0: "0 \<le> a" using n f1 by linarith
  have b0: "0 \<le> b" "b \<le> 4" using f1 f2 by linarith+
  have c0: "0 \<le> c" "c \<le> 24" using f2 f3 by linarith+
  have e0: "0 \<le> e" "e \<le> 4" using f3 f4 by linarith+
  show ?thesis
  proof (cases "b = 4")
    case True
    then have z: "r2 = 0" "c = 0" "r3 = 0" "e = 0" "r4 = 0" using f1 f2 f3 f4 c0 e0 by linarith+
    have ymd: "y = 400 * a + 100 * 3 + 4 * 24 + 3 + 1" "m = 12" "d = 31"
      using res o True z by (simp_all add: yy_def)
    have lp: "is_leap (400 * a + 100 * 3 + 4 * 24 + 3 + 1)"
      by (subst is_leap_decomp) simp_all
    have dby: "days_before_year (400 * a + 100 * 3 + 4 * 24 + 3 + 1)
        = 146097 * a + 36524 * 3 + 1461 * 24 + 365 * 3"
      by (rule days_before_year_decomp) simp_all
    have nn: "n = 146097 * a + 146097" using f1 f2 True z by linarith
    show ?thesis
      unfolding ymd ymd2ord_def days_in_month_def days_before_month_def using lp dby nn a0
      by (simp add: DAYS_BEFORE_MONTH_def DAYS_IN_MONTH_def)
  next
    case b4: False
    then have b3: "b \<le> 3" using b0 by linarith
    show ?thesis
    proof (cases "e = 4")
      case True
      then have z: "r4 = 0" "c \<le> 23" using f2 f3 f4 by linarith+
      have ymd: "y = 400 * a + 100 * b + 4 * c + 3 + 1" "m = 12" "d = 31"
        using res o True by (simp_all add: yy_def)
      have lp: "is_leap (400 * a + 100 * b + 4 * c + 3 + 1)"
        by (subst is_leap_decomp) (use b0 b3 c0 z in simp_all)
      have dby: "days_before_year (400 * a + 100 * b + 4 * c + 3 + 1)
          = 146097 * a + 36524 * b + 1461 * c + 365 * 3"
        by (rule days_before_year_decomp) (use b0 b3 c0 in simp_all)
      have nn: "n = 146097 * a + 36524 * b + 1461 * c + 1461" using f1 f2 f3 f4 True z by linarith
      have y1: "1 \<le> 400 * a + 100 * b + 4 * c + 3 + 1" using a0 b0 c0 by linarith
      show ?thesis
        unfolding ymd ymd2ord_def days_in_month_def days_before_month_def using lp dby nn y1
        by (simp add: DAYS_BEFORE_MONTH_def DAYS_IN_MONTH_def)
    next
      case e4: False
      then have e3: "e \<le> 3" using e0 by linarith
      obtain m' d' where md: "(m', d') = (if p > r4
              then (mm - 1, r4 - (p - (DAYS_IN_MONTH ! nat (mm - 1)
                                      + (if mm - 1 = 2 \<and> leap then 1 else 0))) + 1)
              else (mm, r4 - p + 1))"
        by (metis surj_pair)
      have ymd: "y = yy" "m = m'" "d = d'"
        using res o e4 b4 md by (simp_all split: if_splits)
      have yy: "yy = 400 * a + 100 * b + 4 * c + e + 1" by (simp add: yy_def)
      have lp: "is_leap yy \<longleftrightarrow> leap"
        unfolding yy leap_def by (rule is_leap_decomp) (use b0 b3 c0 e0 e3 in simp_all)
      have dby: "days_before_year yy = 146097 * a + 36524 * b + 1461 * c + 365 * e"
        unfolding yy by (rule days_before_year_decomp) (use b0 b3 c0 e0 e3 in simp_all)
      have nn: "n = 146097 * a + 36524 * b + 1461 * c + 365 * e + r4 + 1"
        using f1 f2 f3 f4 by linarith
      have y1: "1 \<le> yy" unfolding yy using a0 b0 c0 e0 by linarith
      have k: "0 \<le> r4" "r4 < 365" using f4 by simp_all
      have md': "1 \<le> m' \<and> m' \<le> 12 \<and> 1 \<le> d' \<and>
         d' \<le> DAYS_IN_MONTH ! nat m' + (if m' = 2 \<and> leap then 1 else 0) \<and>
         DAYS_BEFORE_MONTH ! nat m' + (if m' > 2 \<and> leap then 1 else 0) + d' = r4 + 1"
        by (rule month_day [OF k mm_def p_def md])
      have dim: "days_in_month yy m' = DAYS_IN_MONTH ! nat m' + (if m' = 2 \<and> leap then 1 else 0)"
        using md' lp by (cases "m' = 2") (simp_all add: days_in_month_def DAYS_IN_MONTH_def)
      have dbm: "days_before_month yy m' = DAYS_BEFORE_MONTH ! nat m' + (if m' > 2 \<and> leap then 1 else 0)"
        using lp by (simp add: days_before_month_def)
      have "ymd2ord (yy, m', d') = n"
        unfolding ymd2ord_def prod.case dbm dby nn using md' by linarith
      then show ?thesis
        unfolding ymd dim using md' y1 by simp
    qed
  qed
qed


lemmas month_tables = days_in_month_def days_before_month_def DAYS_BEFORE_MONTH_def
  DAYS_IN_MONTH_def

lemma days_in_month_range:
  assumes "1 \<le> m" "m \<le> 12"
  shows "28 \<le> days_in_month y m \<and> days_in_month y m \<le> 31"
  using assms by (cases rule: month_cases) (simp_all add: month_tables)

lemma days_before_month_Suc:
  assumes "1 \<le> m" "m \<le> 11"
  shows "days_before_month y (m + 1) = days_before_month y m + days_in_month y m"
proof -
  have "m \<le> 12" using assms by simp
  with assms(1) show ?thesis
    using assms(2) by (cases rule: month_cases) (simp_all add: month_tables)
qed

lemma days_before_month_12:
  "days_before_month y 12 + days_in_month y 12 = (if is_leap y then 366 else 365)"
  by (simp add: month_tables)

lemma days_before_month_1: "days_before_month y 1 = 0"
  by (simp add: month_tables)

lemma days_before_month_mono:
  assumes "1 \<le> m" "m \<le> m'" "m' \<le> 12"
  shows "days_before_month y m \<le> days_before_month y m'"
  using assms(2,1,3)
proof (induction m' rule: int_ge_induct)
  case base
  then show ?case by simp
next
  case (step i)
  have "days_before_month y (i + 1) = days_before_month y i + days_in_month y i"
    by (rule days_before_month_Suc) (use step in linarith)+
  moreover have "28 \<le> days_in_month y i \<and> days_in_month y i \<le> 31"
    by (rule days_in_month_range) (use step in linarith)+
  moreover have "days_before_month y m \<le> days_before_month y i"
    by (rule step.IH) (use step in linarith)+
  ultimately show ?case by linarith
qed

text \<open>The day of the year of a date lies within the year.\<close>

lemma day_of_year_range:
  assumes "1 \<le> m" "m \<le> 12" "1 \<le> d" "d \<le> days_in_month y m"
  shows "1 \<le> days_before_month y m + d \<and>
         days_before_month y m + d \<le> (if is_leap y then 366 else 365)"
proof -
  have "days_before_month y 1 \<le> days_before_month y m"
    by (rule days_before_month_mono) (use assms in simp_all)
  then have lo: "1 \<le> days_before_month y m + d" using assms(3) by (simp add: days_before_month_1)
  have "days_before_month y m + days_in_month y m \<le> days_before_month y 12 + days_in_month y 12"
  proof (cases "m = 12")
    case True
    then show ?thesis by simp
  next
    case False
    then have m11: "m \<le> 11" using assms(2) by simp
    have "days_before_month y (m + 1) \<le> days_before_month y 12"
      by (rule days_before_month_mono) (use assms m11 in simp_all)
    moreover have "0 \<le> days_in_month y 12" by (simp add: month_tables)
    ultimately show ?thesis using days_before_month_Suc [OF assms(1) m11, of y] by linarith
  qed
  then show ?thesis using lo assms(4) unfolding days_before_month_12 by linarith
qed

lemma ymd2ord_strict_mono:
  assumes a: "1 \<le> m" "m \<le> 12" "1 \<le> d" "d \<le> days_in_month y m"
    and b: "1 \<le> m'" "m' \<le> 12" "1 \<le> d'" "d' \<le> days_in_month y' m'"
    and lt: "y < y' \<or> (y = y' \<and> (m < m' \<or> (m = m' \<and> d < d')))"
  shows "ymd2ord (y, m, d) < ymd2ord (y', m', d')"
proof -
  have ra: "1 \<le> days_before_month y m + d \<and>
            days_before_month y m + d \<le> (if is_leap y then 366 else 365)"
    by (rule day_of_year_range [OF a])
  have rb: "1 \<le> days_before_month y' m' + d' \<and>
            days_before_month y' m' + d' \<le> (if is_leap y' then 366 else 365)"
    by (rule day_of_year_range [OF b])
  consider "y < y'" | "y = y'" "m < m'" | "y = y'" "m = m'" "d < d'" using lt by blast
  then show ?thesis
  proof cases
    case 1
    then have "days_before_year (y + 1) \<le> days_before_year y'"
      by (intro days_before_year_mono) simp
    then show ?thesis
      unfolding ymd2ord_def prod.case days_before_year_Suc using ra rb by linarith
  next
    case 2
    have m11: "m \<le> 11" using 2 b by linarith
    have "days_before_month y (m + 1) \<le> days_before_month y m'"
      by (rule days_before_month_mono) (use a b 2 in linarith)+
    then show ?thesis
      unfolding ymd2ord_def prod.case using days_before_month_Suc [OF a(1) m11, of y] a b 2
      by simp
  next
    case 3
    then show ?thesis unfolding ymd2ord_def by simp
  qed
qed


lemma days_before_year_1: "days_before_year 1 = 0"
  by (simp add: days_before_year_def)

lemma days_before_year_10000: "days_before_year 10000 = 3652059"
  by (simp add: days_before_year_def)

lemma ymd2ord_range:
  assumes "valid_date dt"
  shows "1 \<le> ymd2ord dt \<and> ymd2ord dt \<le> MAXORDINAL"
proof -
  obtain y m d where dt: "dt = (y, m, d)" by (cases dt) auto
  have v: "1 \<le> y" "y \<le> 9999" "1 \<le> m" "m \<le> 12" "1 \<le> d" "d \<le> days_in_month y m"
    using assms by (simp_all add: valid_date_def dt)
  have r: "1 \<le> days_before_month y m + d \<and>
           days_before_month y m + d \<le> (if is_leap y then 366 else 365)"
    by (rule day_of_year_range [OF v(3-6)])
  have lo: "days_before_year 1 \<le> days_before_year y" by (rule days_before_year_mono [OF v(1)])
  have "days_before_year (y + 1) \<le> days_before_year 10000"
    by (rule days_before_year_mono) (use v in simp)
  then have hi: "days_before_year y + (if is_leap y then 366 else 365) \<le> 3652059"
    unfolding days_before_year_Suc days_before_year_10000 .
  show ?thesis
    unfolding dt ymd2ord_def prod.case MAXORDINAL_def
    using r lo hi unfolding days_before_year_1 by linarith
qed

lemma ord2ymd_valid:
  assumes "1 \<le> n" "n \<le> MAXORDINAL"
  shows "valid_date (ord2ymd n) \<and> ymd2ord (ord2ymd n) = n"
proof -
  obtain y m d where r: "ord2ymd n = (y, m, d)" by (cases "ord2ymd n") auto
  have c: "1 \<le> y \<and> 1 \<le> m \<and> m \<le> 12 \<and> 1 \<le> d \<and> d \<le> days_in_month y m \<and>
         ymd2ord (y, m, d) = n"
    by (rule ord2ymd_correct [OF assms(1) r])
  have "y \<le> 9999"
  proof (rule ccontr)
    assume "\<not> y \<le> 9999"
    then have "days_before_year 10000 \<le> days_before_year y"
      by (intro days_before_year_mono) simp
    moreover have "1 \<le> days_before_month y m + d"
      using day_of_year_range [of m d y] c by simp
    ultimately have "3652059 < ymd2ord (y, m, d)"
      unfolding ymd2ord_def prod.case days_before_year_10000 by linarith
    then show False using c assms(2) by (simp add: MAXORDINAL_def)
  qed
  then show ?thesis using c by (simp add: r valid_date_def)
qed

lemma date_le_cases:
  "date_le (y, m, d) (y', m', d') \<or>
   (y' < y \<or> (y' = y \<and> (m' < m \<or> (m' = m \<and> d' < d))))"
  unfolding date_le_def by auto

lemma ymd2ord_mono_conv:
  assumes "valid_date a" "valid_date b" "ymd2ord a \<le> ymd2ord b"
  shows "date_le a b"
proof -
  obtain y m d where a: "a = (y, m, d)" by (cases a) auto
  obtain y' m' d' where b: "b = (y', m', d')" by (cases b) auto
  have va: "1 \<le> m" "m \<le> 12" "1 \<le> d" "d \<le> days_in_month y m"
    using assms(1) by (simp_all add: valid_date_def a)
  have vb: "1 \<le> m'" "m' \<le> 12" "1 \<le> d'" "d' \<le> days_in_month y' m'"
    using assms(2) by (simp_all add: valid_date_def b)
  show ?thesis
  proof (rule ccontr)
    assume "\<not> date_le a b"
    then have "y' < y \<or> (y' = y \<and> (m' < m \<or> (m' = m \<and> d' < d)))"
      using date_le_cases [of y m d y' m' d'] a b by simp
    then have "ymd2ord (y', m', d') < ymd2ord (y, m, d)"
      by (rule ymd2ord_strict_mono [OF vb va])
    then show False using assms(3) a b by simp
  qed
qed

lemma date_le_antisym:
  "date_le a b \<Longrightarrow> date_le b a \<Longrightarrow> a = b"
  by (cases a; cases b) (auto simp: date_le_def)

lemma ymd2ord_inj:
  assumes "valid_date a" "valid_date b" "ymd2ord a = ymd2ord b"
  shows "a = b"
  using assms by (intro date_le_antisym ymd2ord_mono_conv) simp_all

lemma ord2ymd_ymd2ord:
  assumes "valid_date dt"
  shows "ord2ymd (ymd2ord dt) = dt"
proof -
  have r: "1 \<le> ymd2ord dt \<and> ymd2ord dt \<le> MAXORDINAL" by (rule ymd2ord_range [OF assms])
  then have "valid_date (ord2ymd (ymd2ord dt)) \<and> ymd2ord (ord2ymd (ymd2ord dt)) = ymd2ord dt"
    by (intro ord2ymd_valid) simp_all
  then show ?thesis using assms by (intro ymd2ord_inj) simp_all
qed



lemma next_day_ord:
  assumes "valid_date dt"
  shows "ymd2ord (next_day dt) = ymd2ord dt + 1"
proof -
  obtain y m d where dt: "dt = (y, m, d)" by (cases dt) auto
  have v: "1 \<le> m" "m \<le> 12" "1 \<le> d" "d \<le> days_in_month y m"
    using assms by (simp_all add: valid_date_def dt)
  show ?thesis
  proof (cases "d < days_in_month y m")
    case True
    then show ?thesis by (simp add: dt next_day_def ymd2ord_def)
  next
    case False
    then have d: "d = days_in_month y m" using v by simp
    show ?thesis
    proof (cases "m < 12")
      case True
      then have "m \<le> 11" by simp
      then show ?thesis
        using days_before_month_Suc [OF v(1), of y] True d
        by (simp add: dt next_day_def ymd2ord_def)
    next
      case False
      then have m: "m = 12" using v by simp
      show ?thesis
        using days_before_month_12 [of y] days_before_year_Suc [of y] d m
        by (simp add: dt next_day_def ymd2ord_def days_before_month_1)
    qed
  qed
qed

lemma next_day_valid:
  assumes "valid_date dt" "ymd2ord dt < MAXORDINAL"
  shows "valid_date (next_day dt)"
proof -
  obtain y m d where dt: "dt = (y, m, d)" by (cases dt) auto
  have v: "1 \<le> y" "y \<le> 9999" "1 \<le> m" "m \<le> 12" "1 \<le> d" "d \<le> days_in_month y m"
    using assms by (simp_all add: valid_date_def dt)
  show ?thesis
  proof (cases "d < days_in_month y m")
    case True
    then show ?thesis using v by (simp add: dt next_day_def valid_date_def)
  next
    case False
    note last = this
    show ?thesis
    proof (cases "m < 12")
      case True
      have "28 \<le> days_in_month y (m + 1) \<and> days_in_month y (m + 1) \<le> 31"
        by (rule days_in_month_range) (use v True in simp_all)
      then show ?thesis using v True last by (simp add: dt next_day_def valid_date_def)
    next
      case False
      have "ymd2ord (next_day dt) \<le> MAXORDINAL" using next_day_ord [OF assms(1)] assms(2) by simp
      then have "days_before_year (y + 1) + 1 \<le> 3652059"
        using False last
        by (simp add: dt next_day_def ymd2ord_def days_before_month_1 MAXORDINAL_def)
      then have "days_before_year (y + 1) < days_before_year 10000"
        unfolding days_before_year_10000 by simp
      then have "y + 1 < 10000"
        using days_before_year_mono [of 10000 "y + 1"] by (cases "y + 1 < 10000") simp_all
      then show ?thesis
        using v False last by (simp add: dt next_day_def valid_date_def month_tables)
    qed
  qed
qed

lemma next_day_funpow:
  assumes "valid_date dt" "ymd2ord dt + int k \<le> MAXORDINAL"
  shows "valid_date ((next_day ^^ k) dt) \<and> ymd2ord ((next_day ^^ k) dt) = ymd2ord dt + int k"
  using assms(2)
proof (induction k)
  case 0
  then show ?case using assms(1) by simp
next
  case (Suc k)
  then have ih: "valid_date ((next_day ^^ k) dt)"
      "ymd2ord ((next_day ^^ k) dt) = ymd2ord dt + int k" by simp_all
  have lt: "ymd2ord ((next_day ^^ k) dt) < MAXORDINAL" using ih(2) Suc.prems by simp
  show ?case
    using next_day_valid [OF ih(1) lt] next_day_ord [OF ih(1)] ih(2) by simp
qed

lemma ord2ymd_add:
  assumes "valid_date dt" "ymd2ord dt + int k \<le> MAXORDINAL"
  shows "ord2ymd (ymd2ord dt + int k) = (next_day ^^ k) dt"
  using next_day_funpow [OF assms] ord2ymd_ymd2ord [of "(next_day ^^ k) dt"] by simp

lemma date_add_days_in_range:
  assumes "valid_date dt" "1 \<le> ymd2ord dt + n" "ymd2ord dt + n \<le> MAXORDINAL"
  shows "date_add_days dt n = Inr (ord2ymd (ymd2ord dt + n))"
proof -
  have "1 \<le> ymd2ord dt \<and> ymd2ord dt \<le> MAXORDINAL" by (rule ymd2ord_range [OF assms(1)])
  then have "\<bar>n\<bar> \<le> 999999999" using assms(2,3) unfolding MAXORDINAL_def by linarith
  then show ?thesis using assms(2,3) by (simp add: date_add_days_def Let_def)
qed

lemma date_add_days_out_of_range:
  assumes "ymd2ord dt + n < 1 \<or> MAXORDINAL < ymd2ord dt + n"
  shows "date_add_days dt n = Inl OverflowError"
  using assms by (auto simp: date_add_days_def Let_def)

subsection \<open>Timestamps\<close>













lemma ymd2ord_2024: "ymd2ord (2024, 1, 1) = 738886"
  by (simp add: ymd2ord_def days_before_year_def month_tables is_leap_def)

lemma valid_2024: "valid_date (2024, 1, 1)"
  by (simp add: valid_date_def month_tables)

lemma ord2ymd_738896: "ord2ymd 738896 = (2024, 1, 11)"
  by (simp add: ord2ymd_def Let_def DAYS_BEFORE_MONTH_def DAYS_IN_MONTH_def)

lemma length_year_str: "pad \<or> 1000 \<le> y \<Longrightarrow> length (year_str pad y) = 4"
  by (auto simp: year_str_def Let_def)

lemma date_add_days_next_day:
  assumes v: "valid_date td" and lo: "1 \<le> ymd2ord td + n" and hi: "ymd2ord td + n \<le> MAXORDINAL"
  defines "r \<equiv> ord2ymd (ymd2ord td + n)"
  shows "date_add_days td n = Inr r" and "valid_date r" and "ymd2ord r = ymd2ord td + n"
    and "0 \<le> n \<Longrightarrow> r = (next_day ^^ nat n) td"
    and "n \<le> 0 \<Longrightarrow> td = (next_day ^^ nat (- n)) r"
proof -
  show "date_add_days td n = Inr r"
    unfolding r_def by (rule date_add_days_in_range [OF v lo hi])
  have vr: "valid_date r \<and> ymd2ord r = ymd2ord td + n"
    unfolding r_def by (rule ord2ymd_valid [OF lo hi])
  then show "valid_date r" and e: "ymd2ord r = ymd2ord td + n" by simp_all
  show "r = (next_day ^^ nat n) td" if "0 \<le> n"
  proof -
    have "ymd2ord td + int (nat n) \<le> MAXORDINAL" using that hi by simp
    then have "ord2ymd (ymd2ord td + int (nat n)) = (next_day ^^ nat n) td"
      by (rule ord2ymd_add [OF v])
    then show ?thesis using that by (simp add: r_def)
  qed
  show "td = (next_day ^^ nat (- n)) r" if "n \<le> 0"
  proof -
    have eq: "ymd2ord r + int (nat (- n)) = ymd2ord td" using that e by simp
    have "ymd2ord td \<le> MAXORDINAL" using ymd2ord_range [OF v] by simp
    then have "ymd2ord r + int (nat (- n)) \<le> MAXORDINAL" using eq by simp
    then have "ord2ymd (ymd2ord r + int (nat (- n))) = (next_day ^^ nat (- n)) r"
      using vr by (intro ord2ymd_add) simp_all
    then show ?thesis unfolding eq using ord2ymd_ymd2ord [OF v] by simp
  qed
qed

subsection \<open>The run as a whole\<close>






















section \<open>The claims\<close>

subsection \<open>Claim C1\<close>

text \<open>
  C1: for every image id selected for deletion, the image is deregistered first and then
  every snapshot of the account whose description contains the id as a substring is
  deleted, at any position, position 0 included.

  The source tests \<^verbatim>\<open>find(...) > 0\<close>, and \<^verbatim>\<open>find\<close> returns 0 for a description that
  starts with the id. In the small account the image \<^verbatim>\<open>ami-1\<close> is deregistered first and the
  snapshot \<^verbatim>\<open>snap-1\<close>, which names the id at index 32, is deleted after it, but the snapshot
  \<^verbatim>\<open>snap-0\<close>, whose description \<^verbatim>\<open>ami-1 nightly\<close> has the id at index 0, is still there when
  the run ends.
\<close>

theorem deregister_amis_keeps_snapshot_at_index_0:
  "find_from 0 ''ami-1 nightly'' ''ami-1'' = 0 \<and>
   find_from 0 ''Created by CreateImage(i-7) for ami-1'' ''ami-1'' = 32 \<and>
   fst (deregister_amis [''ami-1''] small_account) = None \<and>
   calls (snd (deregister_amis [''ami-1''] small_account)) =
     [DeregisterImage ''ami-1'', GetCallerIdentity, DescribeSnapshots ''42'',
      DeleteSnapshot ''snap-1''] \<and>
   Snapshots (snd (deregister_amis [''ami-1''] small_account)) =
     [\<lparr>SnapshotId = ''snap-0'', Description = ''ami-1 nightly'', OwnerId = ''42''\<rparr>,
      \<lparr>SnapshotId = ''snap-2'', Description = ''scratch volume'', OwnerId = ''42''\<rparr>]"
  by (simp add: small_account_def expiry_defs)

subsection \<open>Claim C2\<close>

text \<open>
  C2, as the specification states it: the snapshot-matching step is handed the whole list of
  images to delete as one needle, so the match fails and no snapshot is ever deleted.

  Counterexample: in the small account the run over the list \<^verbatim>\<open>['ami-1']\<close> deletes the
  snapshot \<^verbatim>\<open>snap-1\<close>.
\<close>

theorem deregister_amis_deletes_a_snapshot:
  "map SnapshotId (Snapshots small_account) = [''snap-0'', ''snap-1'', ''snap-2''] \<and>
   map SnapshotId (Snapshots (snd (deregister_amis [''ami-1''] small_account))) =
     [''snap-0'', ''snap-2''] \<and>
   last (calls (snd (deregister_amis [''ami-1''] small_account))) = DeleteSnapshot ''snap-1''"
  by (simp add: small_account_def expiry_defs)

text \<open>
  C2 as amended: \<^verbatim>\<open>deregister_amis\<close> hands each image id of the list on its own, as a
  \<^verbatim>\<open>str\<close>, to \<^verbatim>\<open>delete_snapshots\<close>. When no provider call fails, the account owns at most
  1000 snapshots and the snapshot ids are distinct, the run over the list raises nothing,
  deregisters every image of the list, deletes every snapshot of the account whose
  description contains one of the ids and does not start with it, and keeps every snapshot
  that is not the account's or whose description contains none of the ids.
\<close>

theorem deregister_amis_deletes_hits:
  assumes "\<forall>c. \<not> fails w c" and "length (owned w) \<le> 1000"
    and "distinct (map SnapshotId (Snapshots w))"
  shows "fst (deregister_amis amis w) = None \<and>
     Images (snd (deregister_amis amis w)) = filter (\<lambda>i. image_id i \<notin> set amis) (Images w) \<and>
     (\<forall>s \<in> set (Snapshots w).
        OwnerId s = Account w \<and>
        (\<exists>a \<in> set amis. (\<exists>pre post. Description s = pre @ a @ post) \<and>
                        \<not> startswith (Description s) a)
        \<longrightarrow> s \<notin> set (Snapshots (snd (deregister_amis amis w)))) \<and>
     (\<forall>s \<in> set (Snapshots w).
        OwnerId s \<noteq> Account w \<or>
        (\<forall>a \<in> set amis. \<not> (\<exists>pre post. Description s = pre @ a @ post))
        \<longrightarrow> s \<in> set (Snapshots (snd (deregister_amis amis w))))"
proof -
  note k = deregister_amis_ok [OF assms, of amis]
  have h: "hit a s \<longleftrightarrow> (\<exists>pre post. Description s = pre @ a @ post) \<and> \<not> startswith (Description s) a"
    for a s by (simp add: hit_def find_from_pos)
  have s: "Snapshots (snd (deregister_amis amis w)) =
       filter (\<lambda>s. \<not> (OwnerId s = Account w \<and> (\<exists>a \<in> set amis. hit a s))) (Snapshots w)"
    using k by simp
  show ?thesis
    unfolding s using k by (auto simp: h)
qed

theorem deregister_amis_deletes_hits_witness:
  "(\<forall>c. \<not> fails small_account c) \<and> length (owned small_account) \<le> 1000 \<and>
   distinct (map SnapshotId (Snapshots small_account)) \<and>
   fst (deregister_amis [''ami-1''] small_account) = None \<and>
   Images (snd (deregister_amis [''ami-1''] small_account)) = [] \<and>
   \<lparr>SnapshotId = ''snap-1'', Description = ''Created by CreateImage(i-7) for ami-1'',
     OwnerId = ''42''\<rparr> \<notin> set (Snapshots (snd (deregister_amis [''ami-1''] small_account))) \<and>
   \<lparr>SnapshotId = ''snap-2'', Description = ''scratch volume'', OwnerId = ''42''\<rparr>
     \<in> set (Snapshots (snd (deregister_amis [''ami-1''] small_account)))"
proof -
  let ?s1 = "\<lparr>SnapshotId = ''snap-1'', Description = ''Created by CreateImage(i-7) for ami-1'',
     OwnerId = ''42''\<rparr>"
  let ?s2 = "\<lparr>SnapshotId = ''snap-2'', Description = ''scratch volume'', OwnerId = ''42''\<rparr>"
  have h1: "\<forall>c. \<not> fails small_account c" by (simp add: small_account_def)
  have h2: "length (owned small_account) \<le> 1000" by (simp add: small_account_def owned_def)
  have h3: "distinct (map SnapshotId (Snapshots small_account))" by (simp add: small_account_def)
  note t = deregister_amis_deletes_hits [OF h1 h2 h3, of "[''ami-1'']"]
  have m1: "?s1 \<in> set (Snapshots small_account)" and m2: "?s2 \<in> set (Snapshots small_account)"
    and acc: "Account small_account = ''42''"
    by (simp_all add: small_account_def)
  have img: "filter (\<lambda>i. image_id i \<notin> set [''ami-1'']) (Images small_account) = []"
    by (simp add: small_account_def)
  have c1: "(\<exists>pre post. Description ?s1 = pre @ ''ami-1'' @ post) \<and>
            \<not> startswith (Description ?s1) ''ami-1''"
    using find_from_pos [of "Description ?s1" "''ami-1''"] by simp
  have c2: "\<not> (\<exists>pre post. Description ?s2 = pre @ ''ami-1'' @ post)"
    using find_from_found [of 0 "Description ?s2" "''ami-1''"] by simp
  have d1: "?s1 \<notin> set (Snapshots (snd (deregister_amis [''ami-1''] small_account)))"
    using t m1 c1 acc by auto
  have d2: "?s2 \<in> set (Snapshots (snd (deregister_amis [''ami-1''] small_account)))"
    using t m2 c2 by auto
  show ?thesis using h1 h2 h3 t img d1 d2 by simp
qed

subsection \<open>Claim C3\<close>




subsection \<open>Claim C4\<close>





subsection \<open>Claim C5\<close>

text \<open>
  C5: an enumerated image whose \<^verbatim>\<open>DeleteOn\<close> tag is present but whose value cannot be read
  is treated as not yet expired: it is not selected, and no error is raised.

  The source means this (it reads the value with \<^verbatim>\<open>t.get('Value')\<close> and sets
  \<^verbatim>\<open>deletion_date = False\<close> when no tag has the key), but then compares the value it got
  with the timestamp: for a \<^verbatim>\<open>DeleteOn\<close> tag without a value the comparison is
  \<^verbatim>\<open>None <= str\<close>, and for a tag list without the key it is \<^verbatim>\<open>False <= str\<close>. Both raise
  \<^verbatim>\<open>TypeError\<close>, in every world, and the selection returns no list at all.
\<close>

theorem unreadable_deleteon_raises_TypeError:
  "fst (get_list_of_images_to_deregister
          [\<lparr>image_id = ''ami-9'', tags = Some [\<lparr>Key = ''DeleteOn'', Value = None\<rparr>]\<rparr>] w)
     = Inl TypeError \<and>
   fst (get_list_of_images_to_deregister
          [\<lparr>image_id = ''ami-9'', tags = Some [\<lparr>Key = ''Name'', Value = Some ''web''\<rparr>]\<rparr>] w)
     = Inl TypeError"
  by (simp add: selection_defs)

subsection \<open>Claim C6\<close>



subsection \<open>Claim C7\<close>

text \<open>
  C7, as the specification states it: for every creation date and every number of retention
  days, \<^verbatim>\<open>computeDeleteOn\<close> returns the calendar date creation date + retention days as
  the fixed-width string \<^verbatim>\<open>YYYYMMDDHHMMSS\<close> with a zeroed time of day; for 2024-01-01 and
  10 days it returns \<^verbatim>\<open>20240111000000\<close>.

  Counterexample: from 2024-01-01, 3000000 days lead past 9999-12-31, the last date, and
  the sum raises \<^verbatim>\<open>OverflowError\<close>; and 400000 days back lead to the year 928, which a
  platform that does not pad \<^verbatim>\<open>%Y\<close> writes with three digits, so that the string has 13
  characters.
\<close>

theorem deregister_on_out_of_range:
  "deregister_on True (2024, 1, 1) 3000000 = Inl OverflowError \<and>
   deregister_on False (2024, 1, 1) 3000000 = Inl OverflowError \<and>
   deregister_on False (2024, 1, 1) (- 400000) = Inr ''9281102000000''"
  by (simp add: deregister_on_def date_add_days_def ymd2ord_2024 MAXORDINAL_def
      strftime_defs Let_def ord2ymd_def DAYS_BEFORE_MONTH_def DAYS_IN_MONTH_def)

text \<open>
  C7 as amended: for a date \<open>td\<close> and a number \<open>n\<close> of days such that \<open>td\<close> + \<open>n\<close> days is a
  date (from 0001-01-01 to 9999-12-31), the value is the timestamp of the date (y, m, d)
  that lies \<open>n\<close> days after \<open>td\<close> (or \<open>-n\<close> days before it) in the calendar: the year, the
  month and the day in two digits each, and \<^verbatim>\<open>000000\<close>. Its width is 14 where the year
  has four digits or the platform pads it. Outside that range the sum raises
  \<^verbatim>\<open>OverflowError\<close>. For 2024-01-01 and 10 days the value is \<^verbatim>\<open>20240111000000\<close>.
\<close>

theorem deregister_on_is_date_plus_days:
  "(valid_date td \<and> 1 \<le> ymd2ord td + n \<and> ymd2ord td + n \<le> MAXORDINAL \<longrightarrow>
      (\<exists>y m d. valid_date (y, m, d) \<and> ymd2ord (y, m, d) = ymd2ord td + n \<and>
          (0 \<le> n \<longrightarrow> (y, m, d) = (next_day ^^ nat n) td) \<and>
          (n \<le> 0 \<longrightarrow> td = (next_day ^^ nat (- n)) (y, m, d)) \<and>
          deregister_on pad td n = Inr (year_str pad y @ dec2 m @ dec2 d @ ''000000'') \<and>
          (pad \<or> 1000 \<le> y \<longrightarrow>
             length (year_str pad y @ dec2 m @ dec2 d @ ''000000'') = 14))) \<and>
   (ymd2ord td + n < 1 \<or> MAXORDINAL < ymd2ord td + n \<longrightarrow>
      deregister_on pad td n = Inl OverflowError) \<and>
   deregister_on pad (2024, 1, 1) 10 = Inr ''20240111000000''"
proof (intro conjI impI)
  assume h: "valid_date td \<and> 1 \<le> ymd2ord td + n \<and> ymd2ord td + n \<le> MAXORDINAL"
  then have v: "valid_date td" and lo: "1 \<le> ymd2ord td + n"
    and hi: "ymd2ord td + n \<le> MAXORDINAL" by simp_all
  obtain y m d where r: "ord2ymd (ymd2ord td + n) = (y, m, d)"
    by (cases "ord2ymd (ymd2ord td + n)") auto
  note f = date_add_days_next_day [OF v lo hi, unfolded r]
  have "deregister_on pad td n = Inr (year_str pad y @ dec2 m @ dec2 d @ ''000000'')"
    using f(1) by (simp add: deregister_on_def strftime_date_def)
  moreover have "pad \<or> 1000 \<le> y \<longrightarrow>
      length (year_str pad y @ dec2 m @ dec2 d @ ''000000'') = 14"
    by (simp add: length_year_str dec2_def)
  ultimately show "\<exists>y m d. valid_date (y, m, d) \<and> ymd2ord (y, m, d) = ymd2ord td + n \<and>
          (0 \<le> n \<longrightarrow> (y, m, d) = (next_day ^^ nat n) td) \<and>
          (n \<le> 0 \<longrightarrow> td = (next_day ^^ nat (- n)) (y, m, d)) \<and>
          deregister_on pad td n = Inr (year_str pad y @ dec2 m @ dec2 d @ ''000000'') \<and>
          (pad \<or> 1000 \<le> y \<longrightarrow>
             length (year_str pad y @ dec2 m @ dec2 d @ ''000000'') = 14)"
    using f(2-5) by blast
next
  assume "ymd2ord td + n < 1 \<or> MAXORDINAL < ymd2ord td + n"
  then show "deregister_on pad td n = Inl OverflowError"
    by (simp add: deregister_on_def date_add_days_out_of_range)
next
  show "deregister_on pad (2024, 1, 1) 10 = Inr ''20240111000000''"
    by (cases pad)
      (simp_all add: deregister_on_def date_add_days_def ymd2ord_2024 MAXORDINAL_def
        ord2ymd_738896 strftime_defs Let_def)
qed


theorem deregister_on_is_date_plus_days_witness:
  "valid_date (2024, 1, 1) \<and> 1 \<le> ymd2ord (2024, 1, 1) + 10 \<and>
   ymd2ord (2024, 1, 1) + 10 \<le> MAXORDINAL \<and>
   (\<exists>y m d. valid_date (y, m, d) \<and> ymd2ord (y, m, d) = 738896 \<and>
      (y, m, d) = (next_day ^^ 10) (2024, 1, 1) \<and>
      deregister_on False (2024, 1, 1) 10 = Inr (year_str False y @ dec2 m @ dec2 d @ ''000000'')) \<and>
   MAXORDINAL < ymd2ord (2024, 1, 1) + 3000000 \<and>
   deregister_on False (2024, 1, 1) 3000000 = Inl OverflowError"
proof -
  have h1: "valid_date (2024, 1, 1)" by (rule valid_2024)
  have h2: "1 \<le> ymd2ord (2024, 1, 1) + 10" by (simp add: ymd2ord_2024)
  have h3: "ymd2ord (2024, 1, 1) + 10 \<le> MAXORDINAL" by (simp add: ymd2ord_2024 MAXORDINAL_def)
  have h4: "MAXORDINAL < ymd2ord (2024, 1, 1) + 3000000"
    by (simp add: ymd2ord_2024 MAXORDINAL_def)
  note t = deregister_on_is_date_plus_days [of "(2024, 1, 1)" 10 False]
  note u = deregister_on_is_date_plus_days [of "(2024, 1, 1)" 3000000 False]
  from t h1 h2 h3 obtain y m d where r: "valid_date (y, m, d)"
      "ymd2ord (y, m, d) = ymd2ord (2024, 1, 1) + 10"
      "(y, m, d) = (next_day ^^ nat 10) (2024, 1, 1)"
      "deregister_on False (2024, 1, 1) 10 = Inr (year_str False y @ dec2 m @ dec2 d @ ''000000'')"
    by auto
  have e: "\<exists>y m d. valid_date (y, m, d) \<and> ymd2ord (y, m, d) = 738896 \<and>
      (y, m, d) = (next_day ^^ 10) (2024, 1, 1) \<and>
      deregister_on False (2024, 1, 1) 10 = Inr (year_str False y @ dec2 m @ dec2 d @ ''000000'')"
    using r unfolding ymd2ord_2024 by (intro exI [of _ y] exI [of _ m] exI [of _ d]) simp
  have o: "deregister_on False (2024, 1, 1) 3000000 = Inl OverflowError"
    using u h4 by blast
  show ?thesis using h1 h2 h3 h4 e o by blast
qed

subsection \<open>Claim C8\<close>




subsection \<open>Claim C9\<close>

text \<open>
  C9: in the selection loop, when the first enumerated image has the tag list \<^verbatim>\<open>None\<close> the
  comparison reads the variable \<^verbatim>\<open>deletion_date\<close> before anything was assigned to it, which
  is an error; and when a later image has the tag list \<^verbatim>\<open>None\<close>, its decision is made with
  the \<^verbatim>\<open>deletion_date\<close> that an earlier image left in the variable.

  The second part is stated at any point of the loop: an image with the \<^verbatim>\<open>DeleteOn\<close> value
  \<open>s\<close> is followed by an image without tags, and both are decided by \<open>s\<close>.
\<close>

theorem tags_None_reads_stale_deletion_date:
  "(tags i = None \<longrightarrow>
      get_list_of_images_to_deregister (i # is) w =
        (Inl UnboundLocalError, w\<lparr>reads := Suc (reads w)\<rparr>)) \<and>
   (delete_on a = Some s \<and> tags b = None \<longrightarrow>
      images_loop dd acc (a # b # rest) w =
        images_loop (Some (PStr s))
          ((if str_le s (stamp_of w (reads w)) then acc @ [image_id a] else acc)
             @ (if str_le s (stamp_of w (Suc (reads w))) then [image_id b] else []))
          rest (w\<lparr>reads := Suc (Suc (reads w))\<rparr>))"
proof (intro conjI impI)
  assume "tags i = None"
  then show "get_list_of_images_to_deregister (i # is) w =
        (Inl UnboundLocalError, w\<lparr>reads := Suc (reads w)\<rparr>)"
    by (simp add: selection_defs)
next
  assume h: "delete_on a = Some s \<and> tags b = None"
  then have a: "delete_on a = Some s" and b: "tags b = None" by simp_all
  show "images_loop dd acc (a # b # rest) w =
        images_loop (Some (PStr s))
          ((if str_le s (stamp_of w (reads w)) then acc @ [image_id a] else acc)
             @ (if str_le s (stamp_of w (Suc (reads w))) then [image_id b] else []))
          rest (w\<lparr>reads := Suc (Suc (reads w))\<rparr>)"
    unfolding images_loop_step [OF a]
    using b by (simp add: assign_deletion_date_def now_def stamp_of_def)
qed

theorem tags_None_reads_stale_deletion_date_witness:
  "get_list_of_images_to_deregister
     [\<lparr>image_id = ''ami-c'', tags = None\<rparr>] midnight_account =
     (Inl UnboundLocalError, midnight_account\<lparr>reads := Suc (reads midnight_account)\<rparr>) \<and>
   fst (get_list_of_images_to_deregister
     [\<lparr>image_id = ''ami-a'',
       tags = Some [\<lparr>Key = ''DeleteOn'', Value = Some ''20240101000000''\<rparr>]\<rparr>,
      \<lparr>image_id = ''ami-c'', tags = None\<rparr>] midnight_account) = Inr [''ami-a'', ''ami-c'']"
proof -
  let ?a = "\<lparr>image_id = ''ami-a'',
              tags = Some [\<lparr>Key = ''DeleteOn'', Value = Some ''20240101000000''\<rparr>]\<rparr>"
  let ?c = "\<lparr>image_id = ''ami-c'', tags = None\<rparr>"
  have da: "delete_on ?a = Some ''20240101000000''" by (simp add: delete_on_def)
  have tc: "tags ?c = None" by simp
  have st: "stamp_of midnight_account = (\<lambda>k. ''20240102000000'')"
    by (rule ext) (simp add: midnight_account_def small_account_def strftime_defs stamp_of_def)
  show ?thesis
    using tags_None_reads_stale_deletion_date
        [of ?c "[]" midnight_account ?a "''20240101000000''" ?c None "[]" "[]"] da tc
    unfolding st get_list_of_images_to_deregister_def by simp
qed

subsection \<open>Claim C10\<close>





end
